theory Spec2Isabelle
  imports Main
begin

section \<open>Data model of src/core/derivation.ts\<close>

text \<open>
  Objects are referred to by identity.  A reference to an observable is either a
  plain observable, which has no \<open>observing\<close> property
  (\<open>node.observing === undefined\<close>), or a derivation, whose fields live in the
  object heap under its number.
\<close>

datatype IObservable = Atom nat | Derivation nat

text \<open>
  A JavaScript number that holds an integer is modelled by that integer.  The
  result of an addition or subtraction is the nearest double, a tie going to
  the even significand: \<open>ulp a\<close> is the distance between neighbouring doubles
  at magnitude \<open>a\<close>, which is 1 below \<open>2^53 = 9007199254740992\<close> and doubles
  with every further binary digit, and \<open>toDouble n\<close> rounds the exact result
  \<open>n\<close> to a multiple of it.  A step of one from a double never leaves the
  range of the doubles, so no infinity is needed.
\<close>

function ulp :: "nat \<Rightarrow> nat" where
  "ulp a = (if a < 9007199254740992 then 1 else 2 * ulp (a div 2))"
  by pat_completeness auto
termination
  by (relation "measure id") auto

declare ulp.simps [simp del]

definition toDouble :: "int \<Rightarrow> int" where
  "toDouble n =
     (let a = nat \<bar>n\<bar>; u = ulp a; q = a div u; r = a mod u
      in sgn n * int (if 2 * r < u then q * u
                      else if u < 2 * r then (q + 1) * u
                      else if even q then q * u else (q + 1) * u))"

text \<open>
  The fields of \<open>interface IDerivation\<close> that this file reads or writes.  The
  counters are JavaScript numbers holding integers.  The observer lists of the
  interface belong to the source side (observable.ts) and are kept in the world
  below.
\<close>

record IDerivation =
  observing :: "IObservable list"
  dependencyStaleCount :: int
  dependencyChangeCount :: int

record globalState =
  derivationStack :: "nat list"
  allowStateChanges :: bool

text \<open>
  The failures the file can raise: the three \<open>invariant\<close> messages, and the
  \<open>RangeError\<close> of JavaScript when an array length is set below zero.
\<close>

datatype error = IllegalMutation | ProtocolViolation | CycleDetected | RangeError

datatype transition = STALE | PENDING | READY

text \<open>
  Calls out of the notification functions to their collaborators, in the order
  made: \<open>reportTransition(derivation, state, changed?)\<close>,
  \<open>propagateStaleness(derivation)\<close>, \<open>propagateReadiness(derivation, changed)\<close>
  and the derivation's own method \<open>onDependenciesReady()\<close>.
\<close>

datatype call =
    ReportTransition transition "bool option"
  | PropagateStaleness
  | PropagateReadiness bool
  | OnDependenciesReady

text \<open>
  Modelled from the spec: \<open>invariant\<close> of utils/utils is not among the sources.
  It fails with the given condition when its check is false and does nothing
  otherwise.
\<close>

definition invariant :: "bool \<Rightarrow> error \<Rightarrow> error + unit" where
  "invariant check e = (if check then Inr () else Inl e)"

section \<open>Evaluation context\<close>

definition isComputingDerivation :: "'a globalState_scheme \<Rightarrow> bool" where
  "isComputingDerivation g = (length (derivationStack g) > 0)"

definition checkIfStateModificationsAreAllowed :: "'a globalState_scheme \<Rightarrow> error + unit" where
  "checkIfStateModificationsAreAllowed g = invariant (allowStateChanges g) IllegalMutation"

section \<open>Notification protocol\<close>

text \<open>
  Each function returns the derivation as the call leaves it and the collaborator
  calls it made.  \<open>++derivation.dependencyStaleCount === 1\<close> increments first and
  tests the new value; \<open>++\<close>, \<open>+= 1\<close> and \<open>--\<close> store the double nearest to
  the exact result.
\<close>

definition notifyDependencyStale :: "IDerivation \<Rightarrow> IDerivation \<times> call list" where
  "notifyDependencyStale derivation =
     (let d1 = derivation\<lparr>dependencyStaleCount := toDouble (dependencyStaleCount derivation + 1)\<rparr>
      in if dependencyStaleCount d1 = 1
         then (d1, [ReportTransition STALE None, PropagateStaleness])
         else (d1, []))"

text \<open>
  The first argument is the value \<open>derivation.onDependenciesReady()\<close> returns
  when the function calls it.  A failure is returned with the derivation as the
  exception leaves it.
\<close>

definition notifyDependencyReady ::
  "bool \<Rightarrow> IDerivation \<Rightarrow> bool \<Rightarrow> (error + unit) \<times> IDerivation \<times> call list" where
  "notifyDependencyReady onDependenciesReady derivation dependencyDidChange =
     (case invariant (dependencyStaleCount derivation > 0) ProtocolViolation of
        Inl e \<Rightarrow> (Inl e, derivation, [])
      | Inr _ \<Rightarrow>
          (let d1 = (if dependencyDidChange
                     then derivation\<lparr>dependencyChangeCount :=
                            toDouble (dependencyChangeCount derivation + 1)\<rparr>
                     else derivation);
               d2 = d1\<lparr>dependencyStaleCount := toDouble (dependencyStaleCount d1 - 1)\<rparr>
           in if dependencyStaleCount d2 = 0
              then (if dependencyChangeCount d2 > 0
                    then (let d3 = d2\<lparr>dependencyChangeCount := 0\<rparr>;
                              changed = onDependenciesReady
                          in (Inr (), d3,
                              [ReportTransition PENDING None, OnDependenciesReady,
                               PropagateReadiness changed]))
                    else (Inr (), d2,
                          [ReportTransition READY (Some False), PropagateReadiness False]))
              else (Inr (), d2, [])))"

text \<open>
  A notification as the graph walker delivers it: a stale call, or a ready call
  with \<open>dependencyDidChange\<close> and the value the body would return.  A ready call
  that fails leaves the derivation as the exception left it.
\<close>

datatype notification = NotifyStale | NotifyReady bool bool

fun deliver :: "IDerivation \<Rightarrow> notification \<Rightarrow> IDerivation" where
  "deliver D NotifyStale = fst (notifyDependencyStale D)"
| "deliver D (NotifyReady didChange changed) = fst (snd (notifyDependencyReady changed D didChange))"

section \<open>The object graph and the source-side edge store\<close>

text \<open>
  Calls out of the dependency tracker to the source side, in the order made:
  \<open>addObserver(source, derivation)\<close> and \<open>removeObserver(source, derivation)\<close>.
\<close>

datatype observer_call = AddObserver IObservable nat | RemoveObserver IObservable nat

text \<open>
  The world the tracker runs in: the global state, the heap of derivation
  objects, the observer list of every observable, and the log of edge calls.
\<close>

record world = globalState +
  heap :: "nat \<Rightarrow> IDerivation"
  observers :: "IObservable \<Rightarrow> nat list"
  edgeCalls :: "observer_call list"

text \<open>
  Modelled from the spec: \<open>addObserver\<close> and \<open>removeObserver\<close> of
  core/observable are not among the sources.  They are the edge mutation on the
  source side: the derivation joins, or leaves, the source's observers.
\<close>

definition addObserver :: "IObservable \<Rightarrow> nat \<Rightarrow> world \<Rightarrow> world" where
  "addObserver source derivation w =
     w\<lparr>observers := (observers w)(source := observers w source @ [derivation]),
       edgeCalls := edgeCalls w @ [AddObserver source derivation]\<rparr>"

definition removeObserver :: "IObservable \<Rightarrow> nat \<Rightarrow> world \<Rightarrow> world" where
  "removeObserver source derivation w =
     w\<lparr>observers := (observers w)(source := remove1 derivation (observers w source)),
       edgeCalls := edgeCalls w @ [RemoveObserver source derivation]\<rparr>"

text \<open>
  Modelled from the spec: \<open>quickDiff\<close> of utils/utils is not among the sources.
  It returns the pair (added, removed): the entries of the current list that are
  not in the base list, and the entries of the base list that are not in the
  current one.
\<close>

definition quickDiff :: "'a list \<Rightarrow> 'a list \<Rightarrow> 'a list \<times> 'a list" where
  "quickDiff current base =
     (filter (\<lambda>x. x \<notin> set base) current, filter (\<lambda>x. x \<notin> set current) base)"

section \<open>Cycle detector\<close>

text \<open>\<open>node.observing\<close>: undefined for a plain observable.\<close>

primrec observingOf :: "(nat \<Rightarrow> IDerivation) \<Rightarrow> IObservable \<Rightarrow> IObservable list option" where
  "observingOf h (Atom a) = None"
| "observingOf h (Derivation d) = Some (observing (h d))"

text \<open>
  The loop \<open>for (i = 0; i < l; i++) if (findCycle(needle, obs[i])) return true;
  return false\<close> over a recursive call \<open>rec\<close>; a call that does not return stops
  the loop without a result.
\<close>

primrec findCycle_loop :: "(IObservable \<Rightarrow> bool option) \<Rightarrow> IObservable list \<Rightarrow> bool option" where
  "findCycle_loop rec [] = Some False"
| "findCycle_loop rec (x # xs) =
     (case rec x of
        None \<Rightarrow> None
      | Some found \<Rightarrow> if found then Some True else findCycle_loop rec xs)"

text \<open>
  The recursion of \<open>findCycle\<close> is bounded by nothing in the source, so the
  model counts the nesting depth still allowed: \<open>None\<close> says the depth was
  used up.  The test \<open>obs.indexOf(node) !== -1\<close> looks for \<open>node\<close> in its own
  list; \<open>needle\<close> is only handed on.
\<close>

primrec findCycle :: "nat \<Rightarrow> (nat \<Rightarrow> IDerivation) \<Rightarrow> nat \<Rightarrow> IObservable \<Rightarrow> bool option" where
  "findCycle 0 h needle node = None"
| "findCycle (Suc fuel) h needle node =
     (case observingOf h node of
        None \<Rightarrow> Some False
      | Some obs \<Rightarrow>
          if node \<in> set obs then Some True
          else findCycle_loop (findCycle fuel h needle) obs)"

text \<open>The \<open>observing\<close> edges of a heap, and those reachable from a node.\<close>

definition observingEdges :: "(nat \<Rightarrow> IDerivation) \<Rightarrow> (IObservable \<times> IObservable) set" where
  "observingEdges h = {(a, b). \<exists>d. a = Derivation d \<and> b \<in> set (observing (h d))}"

definition edgesFrom :: "(nat \<Rightarrow> IDerivation) \<Rightarrow> IObservable \<Rightarrow> (IObservable \<times> IObservable) set" where
  "edgesFrom h node = {(a, b). (a, b) \<in> observingEdges h \<and> (node, a) \<in> (observingEdges h)\<^sup>*}"

section \<open>Dependency tracker\<close>

text \<open>
  A failure is returned with the world as the exception leaves it; \<open>None\<close> says
  that a cycle check did not return.
\<close>

fun bindDependencies_add ::
  "nat \<Rightarrow> nat \<Rightarrow> IObservable list \<Rightarrow> world \<Rightarrow> ((error + unit) \<times> world) option" where
  "bindDependencies_add fuel derivation [] w = Some (Inr (), w)"
| "bindDependencies_add fuel derivation (dependency # added) w =
     (case findCycle fuel (heap w) derivation dependency of
        None \<Rightarrow> None
      | Some cyclic \<Rightarrow>
          (case invariant (\<not> cyclic) CycleDetected of
             Inl e \<Rightarrow> Some (Inl e, w)
           | Inr _ \<Rightarrow>
               bindDependencies_add fuel derivation added (addObserver dependency derivation w)))"

fun bindDependencies_remove :: "nat \<Rightarrow> IObservable list \<Rightarrow> world \<Rightarrow> world" where
  "bindDependencies_remove derivation [] w = w"
| "bindDependencies_remove derivation (r # removed) w =
     bindDependencies_remove derivation removed (removeObserver r derivation w)"

text \<open>
  \<open>globalState.derivationStack.length -= 1\<close> drops the last entry; on an empty
  array it asks for length -1, which JavaScript refuses with a \<open>RangeError\<close>.
\<close>

definition bindDependencies ::
  "nat \<Rightarrow> nat \<Rightarrow> IObservable list \<Rightarrow> world \<Rightarrow> ((error + unit) \<times> world) option" where
  "bindDependencies fuel derivation prevObserving w =
     (if derivationStack w = [] then Some (Inl RangeError, w)
      else
        (let w1 = w\<lparr>derivationStack := butlast (derivationStack w)\<rparr>;
             (added, removed) = quickDiff (observing (heap w1 derivation)) prevObserving
         in case bindDependencies_add fuel derivation added w1 of
              None \<Rightarrow> None
            | Some (Inl e, w2) \<Rightarrow> Some (Inl e, w2)
            | Some (Inr _, w2) \<Rightarrow> Some (Inr (), bindDependencies_remove derivation removed w2)))"

text \<open>
  The body \<open>f\<close> is any function that returns: it gets the world and hands back
  its result and the world as it leaves it.
\<close>

definition trackDerivedFunction ::
  "nat \<Rightarrow> nat \<Rightarrow> (world \<Rightarrow> 'a \<times> world) \<Rightarrow> world \<Rightarrow> ((error + 'a) \<times> world) option" where
  "trackDerivedFunction fuel derivation f w =
     (let prevObserving = observing (heap w derivation);
          w1 = w\<lparr>heap := (heap w)(derivation := (heap w derivation)\<lparr>observing := []\<rparr>)\<rparr>;
          w2 = w1\<lparr>derivationStack := derivationStack w1 @ [derivation]\<rparr>;
          (result, w3) = f w2
      in case bindDependencies fuel derivation prevObserving w3 of
           None \<Rightarrow> None
         | Some (Inl e, w4) \<Rightarrow> Some (Inl e, w4)
         | Some (Inr _, w4) \<Rightarrow> Some (Inr result, w4))"

section \<open>Example objects\<close>

definition newDerivation :: IDerivation where
  "newDerivation = \<lparr>observing = [], dependencyStaleCount = 0, dependencyChangeCount = 0\<rparr>"

definition newWorld :: world where
  "newWorld = \<lparr>derivationStack = [], allowStateChanges = True,
               heap = (\<lambda>_. newDerivation), observers = (\<lambda>_. []), edgeCalls = []\<rparr>"

text \<open>
  Modelled from the spec: reading a source while a derivation is being tracked
  appends the source to the \<open>observing\<close> list of the derivation on top of the
  stack.
\<close>

definition readSource :: "IObservable \<Rightarrow> world \<Rightarrow> world" where
  "readSource source w =
     (if derivationStack w = [] then w
      else (let d = last (derivationStack w)
            in w\<lparr>heap := (heap w)(d := (heap w d)\<lparr>observing := observing (heap w d) @ [source]\<rparr>)\<rparr>))"

text \<open>Two derivations that observe each other.\<close>

definition mutualHeap :: "nat \<Rightarrow> IDerivation" where
  "mutualHeap = (\<lambda>_. newDerivation)
     (0 := newDerivation\<lparr>observing := [Derivation 1]\<rparr>,
      1 := newDerivation\<lparr>observing := [Derivation 0]\<rparr>)"

text \<open>Derivation 0 observes itself.\<close>

definition selfHeap :: "nat \<Rightarrow> IDerivation" where
  "selfHeap = (\<lambda>_. newDerivation)(0 := newDerivation\<lparr>observing := [Derivation 0]\<rparr>)"

text \<open>Derivation 1 observes derivation 0, which observes a plain observable.\<close>

definition chainHeap :: "nat \<Rightarrow> IDerivation" where
  "chainHeap = (\<lambda>_. newDerivation)
     (0 := newDerivation\<lparr>observing := [Atom 0]\<rparr>,
      1 := newDerivation\<lparr>observing := [Derivation 0]\<rparr>)"

definition chainRank :: "IObservable \<Rightarrow> nat" where
  "chainRank x = (case x of Atom a \<Rightarrow> 2 | Derivation d \<Rightarrow> if d = 1 then 0 else 1)"

text \<open>Bodies of derivation 0: one reads its own output, one reads a plain
  observable first and then its own output, one reads two plain observables,
  one reads its own output first and then a plain observable.\<close>

definition selfReadingBody :: "world \<Rightarrow> int \<times> world" where
  "selfReadingBody w = (42, readSource (Derivation 0) w)"

definition atomThenSelfBody :: "world \<Rightarrow> int \<times> world" where
  "atomThenSelfBody w = (42, readSource (Derivation 0) (readSource (Atom 1) w))"

definition switchingBody :: "world \<Rightarrow> int \<times> world" where
  "switchingBody w = (7, readSource (Atom 3) (readSource (Atom 2) w))"

definition selfThenAtomBody :: "world \<Rightarrow> int \<times> world" where
  "selfThenAtomBody w = (42, readSource (Atom 1) (readSource (Derivation 0) w))"

text \<open>A world in which derivation 0 observes, and is subscribed to, one plain
  observable.\<close>

definition onceSubscribedWorld :: world where
  "onceSubscribedWorld = newWorld
     \<lparr>heap := (heap newWorld)(0 := newDerivation\<lparr>observing := [Atom 2]\<rparr>),
      observers := (observers newWorld)(Atom 2 := [0])\<rparr>"

text \<open>A world in which derivation 0 observes, and is subscribed to, two plain
  observables.\<close>

definition subscribedWorld :: world where
  "subscribedWorld = newWorld
     \<lparr>heap := (heap newWorld)(0 := newDerivation\<lparr>observing := [Atom 1, Atom 2]\<rparr>),
      observers := (observers newWorld)(Atom 1 := [0], Atom 2 := [0])\<rparr>"

text \<open>The world after \<open>addObserver\<close> for each source of a list, in order.\<close>

abbreviation addAll :: "nat \<Rightarrow> world \<Rightarrow> IObservable list \<Rightarrow> world" where
  "addAll d w xs \<equiv> foldl (\<lambda>w s. addObserver s d w) w xs"

section \<open>Evaluation context: the mutation guard\<close>

text \<open>
  C3, as stated, fails: with an empty derivation stack and the flag off the guard
  raises \<open>IllegalMutation\<close>.
\<close>

theorem guard_fails_when_idle:
  "checkIfStateModificationsAreAllowed \<lparr>derivationStack = [], allowStateChanges = False\<rparr>
     = Inl IllegalMutation
   \<and> isComputingDerivation \<lparr>derivationStack = [], allowStateChanges = False\<rparr> = False"
  by (simp add: checkIfStateModificationsAreAllowed_def invariant_def isComputingDerivation_def)

text \<open>
  C3, amended: the guard fails with \<open>IllegalMutation\<close> exactly when the
  \<open>allowStateChanges\<close> flag is false; the derivation stack plays no part, so
  replacing the stack by any other leaves the outcome as it was.
\<close>

theorem guard_fails_iff_flag_off:
  "(checkIfStateModificationsAreAllowed g = Inl IllegalMutation) = (\<not> allowStateChanges g)
   \<and> (checkIfStateModificationsAreAllowed g = Inr ()) = allowStateChanges g
   \<and> checkIfStateModificationsAreAllowed (g\<lparr>derivationStack := s\<rparr>)
       = checkIfStateModificationsAreAllowed g"
  by (simp add: checkIfStateModificationsAreAllowed_def invariant_def)

theorem guard_fails_iff_flag_off_witness:
  "checkIfStateModificationsAreAllowed \<lparr>derivationStack = [7], allowStateChanges = True\<rparr> = Inr ()
   \<and> checkIfStateModificationsAreAllowed \<lparr>derivationStack = [], allowStateChanges = False\<rparr>
       \<noteq> Inr ()"
  using guard_fails_iff_flag_off [of "\<lparr>derivationStack = [7], allowStateChanges = True\<rparr>"]
        guard_fails_iff_flag_off [of "\<lparr>derivationStack = [], allowStateChanges = False\<rparr>"]
  by simp

section \<open>Numbers\<close>

lemma ulp_below: "a < 9007199254740992 \<Longrightarrow> ulp a = 1"
  by (subst ulp.simps) simp

lemma ulp_above: "\<not> a < 9007199254740992 \<Longrightarrow> ulp a = 2 * ulp (a div 2)"
  by (subst ulp.simps) simp

lemma toDouble_exact: "\<bar>n\<bar> \<le> 9007199254740992 \<Longrightarrow> toDouble n = n"
proof (cases "\<bar>n\<bar> < 9007199254740992")
  case True
  then have "ulp (nat \<bar>n\<bar>) = 1"
    by (intro ulp_below) simp
  then show ?thesis
    by (simp add: toDouble_def Let_def mult_sgn_abs)
next
  case False
  assume "\<bar>n\<bar> \<le> 9007199254740992"
  with False have b: "\<bar>n\<bar> = 9007199254740992"
    by linarith
  then have a: "nat \<bar>n\<bar> = 9007199254740992"
    by simp
  have "ulp 9007199254740992 = 2 * ulp 4503599627370496"
    using ulp_above [of 9007199254740992] by simp
  then have u: "ulp 9007199254740992 = 2"
    by (simp add: ulp_below)
  have "sgn n * 9007199254740992 = n"
    using mult_sgn_abs [of n] b by simp
  with a u show ?thesis
    by (simp add: toDouble_def Let_def)
qed

lemma toDouble_nonneg: "0 \<le> n \<Longrightarrow> 0 \<le> toDouble n"
  by (simp add: toDouble_def Let_def sgn_if)

lemma toDouble_even: "9007199254740992 < \<bar>n\<bar> \<Longrightarrow> even (toDouble n)"
proof -
  assume "9007199254740992 < \<bar>n\<bar>"
  then have "\<not> nat \<bar>n\<bar> < 9007199254740992"
    by simp
  then have "even (ulp (nat \<bar>n\<bar>))"
    by (simp add: ulp_above)
  then show ?thesis
    by (simp add: toDouble_def Let_def)
qed

lemma toDouble_eq_1: "(toDouble n = 1) = (n = 1)"
proof (cases "\<bar>n\<bar> \<le> 9007199254740992")
  case True
  then show ?thesis by (simp add: toDouble_exact)
next
  case False
  then have "even (toDouble n)"
    by (intro toDouble_even) simp
  then have "toDouble n \<noteq> 1"
    by auto
  moreover from False have "n \<noteq> 1"
    by auto
  ultimately show ?thesis by simp
qed

section \<open>Notification protocol: counting\<close>

text \<open>
  C6, as stated, fails: at a stale count of \<open>2^53\<close> the increment is lost in
  rounding, and \<open>notifyDependencyStale\<close> leaves the count as it was (and makes
  no call out).
\<close>

theorem stale_count_stuck:
  "notifyDependencyStale (newDerivation\<lparr>dependencyStaleCount := 9007199254740992\<rparr>)
     = (newDerivation\<lparr>dependencyStaleCount := 9007199254740992\<rparr>, [])"
proof -
  have "ulp 9007199254740993 = 2 * ulp 4503599627370496"
    using ulp_above [of 9007199254740993] by simp
  then have "ulp 9007199254740993 = 2"
    by (simp add: ulp_below)
  then have "toDouble 9007199254740993 = 9007199254740992"
    by (simp add: toDouble_def Let_def)
  then show ?thesis
    by (simp add: notifyDependencyStale_def Let_def newDerivation_def)
qed

text \<open>
  C6, amended: \<open>notifyDependencyStale\<close> changes nothing of the derivation but
  \<open>dependencyStaleCount\<close>, which it increments by one whenever the count is an
  integer from \<open>-2^53\<close> to \<open>2^53 - 1\<close>, the range in which the addition is
  exact; it reports STALE and propagates staleness, once each and in this order,
  exactly when the count was 0 before the call, and makes no call at all
  otherwise, in particular whenever the count was already positive.
\<close>

theorem stale_forwarded_once:
  "(- 9007199254740992 \<le> dependencyStaleCount D \<and> dependencyStaleCount D < 9007199254740992
      \<longrightarrow> dependencyStaleCount (fst (notifyDependencyStale D)) = dependencyStaleCount D + 1)
   \<and> fst (notifyDependencyStale D)
       = D\<lparr>dependencyStaleCount := dependencyStaleCount (fst (notifyDependencyStale D))\<rparr>
   \<and> snd (notifyDependencyStale D)
       = (if dependencyStaleCount D = 0
          then [ReportTransition STALE None, PropagateStaleness] else [])"
proof -
  have "toDouble (dependencyStaleCount D + 1) = dependencyStaleCount D + 1"
    if "- 9007199254740992 \<le> dependencyStaleCount D"
      and "dependencyStaleCount D < 9007199254740992"
  proof -
    from that have "\<bar>dependencyStaleCount D + 1\<bar> \<le> 9007199254740992"
      by (simp add: abs_le_iff)
    then show ?thesis
      by (rule toDouble_exact)
  qed
  then show ?thesis
    by (simp add: notifyDependencyStale_def Let_def toDouble_eq_1)
qed

theorem stale_forwarded_once_witness:
  "- 9007199254740992 \<le> dependencyStaleCount newDerivation
   \<and> dependencyStaleCount newDerivation < 9007199254740992
   \<and> snd (notifyDependencyStale newDerivation) = [ReportTransition STALE None, PropagateStaleness]
   \<and> snd (notifyDependencyStale (fst (notifyDependencyStale newDerivation))) = []
   \<and> dependencyStaleCount (fst (notifyDependencyStale (fst (notifyDependencyStale newDerivation)))) = 2"
proof -
  have z: "dependencyStaleCount newDerivation = 0"
    by (simp add: newDerivation_def)
  from stale_forwarded_once [of newDerivation] z
  have one: "dependencyStaleCount (fst (notifyDependencyStale newDerivation)) = 1"
    and c1: "snd (notifyDependencyStale newDerivation)
               = [ReportTransition STALE None, PropagateStaleness]"
    by simp_all
  from stale_forwarded_once [of "fst (notifyDependencyStale newDerivation)"] one
  have "dependencyStaleCount (fst (notifyDependencyStale (fst (notifyDependencyStale newDerivation)))) = 2"
    and "snd (notifyDependencyStale (fst (notifyDependencyStale newDerivation))) = []"
    by simp_all
  with z c1 show ?thesis
    by simp
qed

text \<open>
  C1: a derivation with both counters at 0 gets two stale calls and then two
  ready calls with \<open>dependencyDidChange = true\<close>.  The stale count goes 1, 2 and
  then 2 to 1 to 0; the change count is 1 after the first ready call and 0 after
  the second (which raises it to 2 before resetting it); the first ready call
  makes no call out, and the second, which brings the stale count to 0, reports
  PENDING once, runs \<open>onDependenciesReady\<close> once and propagates readiness once
  with the value the body returned.
\<close>

theorem coalescing_two_sources:
  assumes "dependencyStaleCount D = 0" and "dependencyChangeCount D = 0"
  shows "\<exists>D1 D2 D3 D4.
     notifyDependencyStale D = (D1, [ReportTransition STALE None, PropagateStaleness])
   \<and> notifyDependencyStale D1 = (D2, [])
   \<and> dependencyStaleCount D1 = 1 \<and> dependencyStaleCount D2 = 2
   \<and> notifyDependencyReady changed1 D2 True = (Inr (), D3, [])
   \<and> dependencyStaleCount D3 = 1 \<and> dependencyChangeCount D3 = 1
   \<and> notifyDependencyReady changed2 D3 True
       = (Inr (), D4,
          [ReportTransition PENDING None, OnDependenciesReady, PropagateReadiness changed2])
   \<and> dependencyStaleCount D4 = 0 \<and> dependencyChangeCount D4 = 0"
  using assms
  by (simp add: notifyDependencyStale_def notifyDependencyReady_def invariant_def Let_def
      toDouble_exact)

theorem coalescing_two_sources_witness:
  "dependencyStaleCount newDerivation = 0 \<and> dependencyChangeCount newDerivation = 0
   \<and> (\<exists>D1 D2 D3 D4.
     notifyDependencyStale newDerivation = (D1, [ReportTransition STALE None, PropagateStaleness])
   \<and> notifyDependencyStale D1 = (D2, [])
   \<and> notifyDependencyReady True D2 True = (Inr (), D3, [])
   \<and> notifyDependencyReady True D3 True
       = (Inr (), D4,
          [ReportTransition PENDING None, OnDependenciesReady, PropagateReadiness True])
   \<and> D4 = newDerivation)"
proof -
  have z: "dependencyStaleCount newDerivation = 0" "dependencyChangeCount newDerivation = 0"
    by (simp_all add: newDerivation_def)
  from coalescing_two_sources [OF z, of True True]
  obtain D1 D2 D3 D4 where
      "notifyDependencyStale newDerivation = (D1, [ReportTransition STALE None, PropagateStaleness])"
      "notifyDependencyStale D1 = (D2, [])"
      "notifyDependencyReady True D2 True = (Inr (), D3, [])"
      "notifyDependencyReady True D3 True
         = (Inr (), D4,
            [ReportTransition PENDING None, OnDependenciesReady, PropagateReadiness True])"
    by blast
  moreover from this have "D4 = newDerivation"
    by (auto simp: notifyDependencyStale_def notifyDependencyReady_def invariant_def Let_def
        newDerivation_def toDouble_exact)
  ultimately show ?thesis using z by blast
qed

lemma deliver_nonneg:
  "0 \<le> dependencyStaleCount D \<Longrightarrow> 0 \<le> dependencyStaleCount (deliver D n)"
  by (cases n)
    (auto simp: notifyDependencyStale_def notifyDependencyReady_def invariant_def Let_def
       intro: toDouble_nonneg)

lemma foldl_deliver_nonneg:
  "0 \<le> dependencyStaleCount D \<Longrightarrow> 0 \<le> dependencyStaleCount (foldl deliver D ns)"
  by (induction ns arbitrary: D) (simp_all add: deliver_nonneg)

text \<open>
  C4: a ready call on a derivation whose stale count is 0 fails with
  \<open>ProtocolViolation\<close>, makes no call out and leaves the derivation, so both
  counters, as it was; and from a stale count that is not negative, no sequence
  of stale and ready calls, failed ones included, makes it negative.
\<close>

theorem ready_underflow_rejected:
  "(dependencyStaleCount D = 0 \<longrightarrow>
      notifyDependencyReady changed D didChange = (Inl ProtocolViolation, D, []))
   \<and> (0 \<le> dependencyStaleCount D \<longrightarrow> 0 \<le> dependencyStaleCount (foldl deliver D ns))"
  by (simp add: notifyDependencyReady_def invariant_def foldl_deliver_nonneg)

theorem ready_underflow_rejected_witness:
  "dependencyStaleCount newDerivation = 0
   \<and> notifyDependencyReady True newDerivation True = (Inl ProtocolViolation, newDerivation, [])
   \<and> 0 \<le> dependencyStaleCount
         (foldl deliver newDerivation
            [NotifyReady True True, NotifyStale, NotifyReady False False, NotifyReady True True])"
proof -
  have z: "dependencyStaleCount newDerivation = 0"
    by (simp add: newDerivation_def)
  then have nn: "0 \<le> dependencyStaleCount newDerivation"
    by simp
  note t = ready_underflow_rejected [of newDerivation True True
      "[NotifyReady True True, NotifyStale, NotifyReady False False, NotifyReady True True]"]
  from t z have a: "notifyDependencyReady True newDerivation True
      = (Inl ProtocolViolation, newDerivation, [])"
    by blast
  from t nn have b: "0 \<le> dependencyStaleCount
         (foldl deliver newDerivation
            [NotifyReady True True, NotifyStale, NotifyReady False False, NotifyReady True True])"
    by blast
  from z a b show ?thesis by blast
qed

text \<open>
  C7: when a ready call brings the stale count from 1 to 0 and the change count,
  after the increment for \<open>dependencyDidChange\<close>, is 0, the body is not run: the
  call reports READY with \<open>changed = false\<close> and propagates readiness with
  \<open>changed = false\<close>, and these are its only calls out.
\<close>

theorem noop_propagation:
  assumes "dependencyStaleCount D = 1"
      and "dependencyChangeCount D + (if didChange then 1 else 0) = 0"
  shows "notifyDependencyReady changed D didChange
     = (Inr (),
        D\<lparr>dependencyChangeCount := 0, dependencyStaleCount := 0\<rparr>,
        [ReportTransition READY (Some False), PropagateReadiness False])"
  using assms
  by (auto simp: notifyDependencyReady_def invariant_def Let_def toDouble_exact split: if_splits)

theorem noop_propagation_witness:
  "dependencyStaleCount (newDerivation\<lparr>dependencyStaleCount := 1\<rparr>) = 1
   \<and> notifyDependencyReady True (newDerivation\<lparr>dependencyStaleCount := 1\<rparr>) False
     = (Inr (), newDerivation,
        [ReportTransition READY (Some False), PropagateReadiness False])"
  using noop_propagation [of "newDerivation\<lparr>dependencyStaleCount := 1\<rparr>" False True]
  by (simp add: newDerivation_def)

section \<open>Cycle detector: what the search returns\<close>

subsection \<open>More depth never changes a result\<close>

lemma findCycle_loop_cong_result:
  "findCycle_loop f xs = Some b \<Longrightarrow> (\<And>x c. x \<in> set xs \<Longrightarrow> f x = Some c \<Longrightarrow> g x = Some c)
     \<Longrightarrow> findCycle_loop g xs = Some b"
proof (induction xs)
  case Nil
  then show ?case by simp
next
  case (Cons x xs)
  from Cons.prems(1) obtain c where c: "f x = Some c"
    by (cases "f x") auto
  with Cons.prems(2) have g: "g x = Some c" by simp
  show ?case
  proof (cases c)
    case True
    with c g Cons.prems(1) show ?thesis by simp
  next
    case False
    with c Cons.prems(1) have "findCycle_loop f xs = Some b" by simp
    with Cons.IH Cons.prems(2) have "findCycle_loop g xs = Some b" by simp
    with g False show ?thesis by simp
  qed
qed

lemma findCycle_Suc:
  "findCycle fuel h needle node = Some b \<Longrightarrow> findCycle (Suc fuel) h needle node = Some b"
proof (induction fuel arbitrary: node b)
  case 0
  then show ?case by simp
next
  case (Suc fuel)
  show ?case
  proof (cases "observingOf h node")
    case None
    with Suc.prems show ?thesis by simp
  next
    case (Some obs)
    show ?thesis
    proof (cases "node \<in> set obs")
      case True
      with Some Suc.prems show ?thesis by simp
    next
      case False
      with Some Suc.prems have "findCycle_loop (findCycle fuel h needle) obs = Some b" by simp
      then have "findCycle_loop (findCycle (Suc fuel) h needle) obs = Some b"
        by (rule findCycle_loop_cong_result) (rule Suc.IH)
      with Some False show ?thesis by simp
    qed
  qed
qed

lemma findCycle_add_fuel:
  "findCycle fuel h needle node = Some b \<Longrightarrow> findCycle (fuel + k) h needle node = Some b"
proof (induction k)
  case 0
  then show ?case by simp
next
  case (Suc k)
  then have "findCycle (Suc (fuel + k)) h needle node = Some b"
    by (intro findCycle_Suc) simp
  then show ?case by simp
qed

lemma findCycle_more_fuel:
  assumes "findCycle fuel h needle node = Some b" and "fuel \<le> fuel'"
  shows "findCycle fuel' h needle node = Some b"
proof -
  from assms(2) have "fuel' = fuel + (fuel' - fuel)" by simp
  with findCycle_add_fuel [OF assms(1), of "fuel' - fuel"] show ?thesis by simp
qed

lemma findCycle_loop_returns:
  "(\<And>x. x \<in> set xs \<Longrightarrow> f x \<noteq> None) \<Longrightarrow> findCycle_loop f xs \<noteq> None"
proof (induction xs)
  case Nil
  then show ?case by simp
next
  case (Cons x xs)
  then have "f x \<noteq> None" and "findCycle_loop f xs \<noteq> None" by simp_all
  then show ?case by (auto split: option.splits)
qed

lemma common_fuel:
  "(\<And>x. x \<in> set xs \<Longrightarrow> \<exists>k. findCycle k h needle x \<noteq> None)
     \<Longrightarrow> \<exists>K. \<forall>x \<in> set xs. findCycle K h needle x \<noteq> None"
proof (induction xs)
  case Nil
  then show ?case by simp
next
  case (Cons x xs)
  then obtain K where K: "\<forall>y \<in> set xs. findCycle K h needle y \<noteq> None" by force
  from Cons.prems obtain k where k: "findCycle k h needle x \<noteq> None" by force
  have "findCycle (max k K) h needle y \<noteq> None" if "y \<in> set (x # xs)" for y
  proof (cases "y = x")
    case True
    from k obtain c where "findCycle k h needle x = Some c" by blast
    then have "findCycle (max k K) h needle x = Some c"
      by (rule findCycle_more_fuel) simp
    with True show ?thesis by simp
  next
    case False
    with that K obtain c where "findCycle K h needle y = Some c" by auto
    then have "findCycle (max k K) h needle y = Some c"
      by (rule findCycle_more_fuel) simp
    then show ?thesis by simp
  qed
  then show ?case by blast
qed

lemma findCycle_returns_reachable:
  assumes fin: "finite (edgesFrom h node)" and acyc: "acyclic (edgesFrom h node)"
  shows "(node, a) \<in> (observingEdges h)\<^sup>* \<Longrightarrow> \<exists>k. findCycle k h needle a \<noteq> None"
proof -
  from fin acyc have "wf ((edgesFrom h node)\<inverse>)" by (rule finite_acyclic_wf_converse)
  then show "(node, a) \<in> (observingEdges h)\<^sup>* \<Longrightarrow> \<exists>k. findCycle k h needle a \<noteq> None"
  proof (induction a rule: wf_induct_rule)
    case (less a)
    show ?case
    proof (cases a)
      case (Atom n)
      then have "findCycle (Suc 0) h needle a \<noteq> None" by simp
      then show ?thesis by blast
    next
      case (Derivation d)
      have "\<exists>k. findCycle k h needle x \<noteq> None" if "x \<in> set (observing (h d))" for x
      proof -
        from that Derivation have e: "(a, x) \<in> observingEdges h" by (auto simp: observingEdges_def)
        with less.prems have "(a, x) \<in> edgesFrom h node" by (simp add: edgesFrom_def)
        moreover from e less.prems have "(node, x) \<in> (observingEdges h)\<^sup>*" by auto
        ultimately show ?thesis using less.IH [of x] by simp
      qed
      then obtain K where K: "\<forall>x \<in> set (observing (h d)). findCycle K h needle x \<noteq> None"
        using common_fuel [of "observing (h d)" h needle] by blast
      then have "findCycle_loop (findCycle K h needle) (observing (h d)) \<noteq> None"
        by (intro findCycle_loop_returns) simp
      with Derivation have "findCycle (Suc K) h needle a \<noteq> None" by auto
      then show ?thesis by blast
    qed
  qed
qed

text \<open>
  C10: on a heap whose \<open>observing\<close> edges reachable from the candidate source
  are finitely many and acyclic, \<open>findCycle\<close> returns: some nesting depth is
  enough, and every greater depth gives the same result.
\<close>

theorem findCycle_terminates_acyclic:
  assumes "finite (edgesFrom h node)" and "acyclic (edgesFrom h node)"
  shows "\<exists>fuel b. \<forall>fuel' \<ge> fuel. findCycle fuel' h needle node = Some b"
proof -
  from assms obtain k c where "findCycle k h needle node = Some c"
    using findCycle_returns_reachable [of h node node needle] by auto
  then have "\<forall>fuel' \<ge> k. findCycle fuel' h needle node = Some c"
    by (blast intro: findCycle_more_fuel)
  then show ?thesis by blast
qed

lemma chainHeap_edges:
  "observingEdges chainHeap = {(Derivation 0, Atom 0), (Derivation 1, Derivation 0)}"
  by (auto simp: observingEdges_def chainHeap_def newDerivation_def split: if_splits)

lemma chainHeap_ranked: "edgesFrom chainHeap node \<subseteq> measure chainRank"
  by (auto simp: edgesFrom_def chainHeap_edges chainRank_def)

theorem findCycle_terminates_acyclic_witness:
  "finite (edgesFrom chainHeap (Derivation 1))
   \<and> acyclic (edgesFrom chainHeap (Derivation 1))
   \<and> (\<exists>fuel b. \<forall>fuel' \<ge> fuel. findCycle fuel' chainHeap 0 (Derivation 1) = Some b)"
proof -
  have "edgesFrom chainHeap (Derivation 1) \<subseteq> observingEdges chainHeap"
    by (auto simp: edgesFrom_def)
  then have fin: "finite (edgesFrom chainHeap (Derivation 1))"
    by (rule finite_subset) (simp add: chainHeap_edges)
  have "acyclic (measure chainRank)"
    by (rule wf_acyclic) simp
  then have acyc: "acyclic (edgesFrom chainHeap (Derivation 1))"
    by (rule acyclic_subset) (rule chainHeap_ranked)
  from fin acyc findCycle_terminates_acyclic [OF fin acyc, of 0] show ?thesis
    by blast
qed

text \<open>
  C2 does not hold of the code.  In \<open>mutualHeap\<close> derivation 0 is reachable from
  derivation 1 along one \<open>observing\<close> edge, but \<open>findCycle\<close> with needle 0
  started at derivation 1 returns at no depth: each node is looked up in its own
  list only, and the recursion goes round the cycle.  In \<open>chainHeap\<close> derivation
  0 is again one edge from derivation 1, and the search returns false.
\<close>

theorem findCycle_never_compares_needle:
  "(Derivation 1, Derivation 0) \<in> observingEdges mutualHeap
   \<and> findCycle fuel mutualHeap 0 (Derivation 0) = None
   \<and> findCycle fuel mutualHeap 0 (Derivation 1) = None
   \<and> (Derivation 1, Derivation 0) \<in> observingEdges chainHeap
   \<and> findCycle 3 chainHeap 0 (Derivation 1) = Some False"
proof -
  have "findCycle fuel mutualHeap 0 (Derivation 0) = None
      \<and> findCycle fuel mutualHeap 0 (Derivation 1) = None"
    by (induction fuel) (simp_all add: mutualHeap_def newDerivation_def)
  moreover have "(Derivation 1, Derivation 0) \<in> observingEdges mutualHeap"
    by (simp add: mutualHeap_def newDerivation_def observingEdges_def)
  moreover have "findCycle 3 chainHeap 0 (Derivation 1) = Some False"
    by (simp add: chainHeap_def newDerivation_def numeral_3_eq_3)
  moreover have "(Derivation 1, Derivation 0) \<in> observingEdges chainHeap"
    by (simp add: chainHeap_edges)
  ultimately show ?thesis by blast
qed

subsection \<open>What the search looks at\<close>

lemma findCycle_any_needle:
  "findCycle fuel h needle = findCycle fuel h needle'"
proof (induction fuel)
  case 0
  show ?case by (rule ext) simp
next
  case (Suc fuel)
  show ?case
  proof (rule ext)
    fix node
    from Suc have "findCycle_loop (findCycle fuel h needle) obs
        = findCycle_loop (findCycle fuel h needle') obs" for obs
      by simp
    then show "findCycle (Suc fuel) h needle node = findCycle (Suc fuel) h needle' node"
      by (simp split: option.splits)
  qed
qed

text \<open>
  The result of \<open>findCycle\<close> does not depend on the needle: two searches from
  the same node with different needles agree at every depth.
\<close>

theorem findCycle_needle_irrelevant:
  "findCycle fuel h needle node = findCycle fuel h needle' node"
  by (simp add: findCycle_any_needle [of fuel h needle needle'])

text \<open>
  A derivation that lists itself in its own \<open>observing\<close> is reported as a cycle
  at once, whatever the needle.
\<close>

theorem findCycle_self_listed:
  "Derivation d \<in> set (observing (h d)) \<Longrightarrow> findCycle (Suc fuel) h needle (Derivation d) = Some True"
  by simp

theorem findCycle_self_listed_witness:
  "Derivation 0 \<in> set (observing (selfHeap 0))
   \<and> findCycle (Suc 0) selfHeap 5 (Derivation 0) = Some True"
proof -
  have m: "Derivation 0 \<in> set (observing (selfHeap 0))"
    by (simp add: selfHeap_def)
  from m findCycle_self_listed [where h = selfHeap and d = 0 and fuel = 0 and needle = 5, OF m]
  show ?thesis
    by blast
qed

section \<open>Dependency tracker: binding\<close>

subsection \<open>What the two loops do to the world\<close>

lemma addObserver_fields:
  "heap (addObserver s d w) = heap w"
  "derivationStack (addObserver s d w) = derivationStack w"
  "allowStateChanges (addObserver s d w) = allowStateChanges w"
  "edgeCalls (addObserver s d w) = edgeCalls w @ [AddObserver s d]"
  "observers (addObserver s d w) = (observers w)(s := observers w s @ [d])"
  by (simp_all add: addObserver_def)

lemma removeObserver_fields:
  "heap (removeObserver s d w) = heap w"
  "derivationStack (removeObserver s d w) = derivationStack w"
  "allowStateChanges (removeObserver s d w) = allowStateChanges w"
  "edgeCalls (removeObserver s d w) = edgeCalls w @ [RemoveObserver s d]"
  "observers (removeObserver s d w) = (observers w)(s := remove1 d (observers w s))"
  by (simp_all add: removeObserver_def)

lemma addAll_fields:
  "heap (addAll d w xs) = heap w"
  "derivationStack (addAll d w xs) = derivationStack w"
  "edgeCalls (addAll d w xs) = edgeCalls w @ map (\<lambda>s. AddObserver s d) xs"
  "observers (addAll d w xs) s = observers w s @ replicate (count_list xs s) d"
  by (induction xs arbitrary: w) (simp_all add: addObserver_fields replicate_app_Cons_same)

lemma remove_fields:
  "heap (bindDependencies_remove d xs w) = heap w"
  "derivationStack (bindDependencies_remove d xs w) = derivationStack w"
  "edgeCalls (bindDependencies_remove d xs w) = edgeCalls w @ map (\<lambda>s. RemoveObserver s d) xs"
  "s \<notin> set xs \<Longrightarrow> observers (bindDependencies_remove d xs w) s = observers w s"
  by (induction xs arbitrary: w) (auto simp: removeObserver_fields)

lemma add_succeeds_iff:
  "(bindDependencies_add fuel d added w = Some (Inr (), w'))
     = ((\<forall>x \<in> set added. findCycle fuel (heap w) d x = Some False) \<and> w' = addAll d w added)"
proof (induction added arbitrary: w)
  case Nil
  then show ?case by auto
next
  case (Cons x xs)
  show ?case
  proof (cases "findCycle fuel (heap w) d x")
    case None
    then show ?thesis by simp
  next
    case (Some c)
    then show ?thesis
      using Cons.IH [of "addObserver x d w"]
      by (cases c) (simp_all add: invariant_def addObserver_fields)
  qed
qed



lemma bindDependencies_succeeds_iff:
  "(bindDependencies fuel d prev w = Some (Inr (), w'))
     = (derivationStack w \<noteq> []
        \<and> (\<forall>x \<in> set (filter (\<lambda>x. x \<notin> set prev) (observing (heap w d))).
              findCycle fuel (heap w) d x = Some False)
        \<and> w' = bindDependencies_remove d (filter (\<lambda>x. x \<notin> set (observing (heap w d))) prev)
                 (addAll d (w\<lparr>derivationStack := butlast (derivationStack w)\<rparr>)
                    (filter (\<lambda>x. x \<notin> set prev) (observing (heap w d)))))"
proof (cases "derivationStack w = []")
  case True
  then show ?thesis by (simp add: bindDependencies_def)
next
  case False
  let ?w1 = "w\<lparr>derivationStack := butlast (derivationStack w)\<rparr>"
  let ?added = "filter (\<lambda>x. x \<notin> set prev) (observing (heap w d))"
  show ?thesis
  proof (cases "bindDependencies_add fuel d ?added ?w1")
    case None
    with False show ?thesis
      using add_succeeds_iff [of fuel d ?added ?w1 "addAll d ?w1 ?added"]
      by (auto simp: bindDependencies_def quickDiff_def)
  next
    case (Some p)
    obtain r w2 where p: "p = (r, w2)" by (cases p)
    show ?thesis
    proof (cases r)
      case (Inl e)
      with Some p False show ?thesis
        using add_succeeds_iff [of fuel d ?added ?w1 "addAll d ?w1 ?added"]
        by (auto simp: bindDependencies_def quickDiff_def)
    next
      case (Inr u)
      with Some p False show ?thesis
        using add_succeeds_iff [of fuel d ?added ?w1 w2]
        by (auto simp: bindDependencies_def quickDiff_def)
    qed
  qed
qed

subsection \<open>The order of binding\<close>

lemma add_split:
  assumes "\<forall>x \<in> set pre. findCycle fuel (heap w) d x = Some False"
      and "rest \<noteq> [] \<longrightarrow> findCycle fuel (heap w) d (hd rest) = Some True"
  shows "bindDependencies_add fuel d (pre @ rest) w
     = Some (if rest = [] then Inr () else Inl CycleDetected, addAll d w pre)"
  using assms
proof (induction pre arbitrary: w)
  case Nil
  then show ?case
    by (cases rest) (simp_all add: invariant_def)
next
  case (Cons x pre)
  from Cons.prems have "bindDependencies_add fuel d (pre @ rest) (addObserver x d w)
      = Some (if rest = [] then Inr () else Inl CycleDetected, addAll d (addObserver x d w) pre)"
    by (intro Cons.IH) (simp_all add: addObserver_fields)
  with Cons.prems(1) show ?case
    by (simp add: invariant_def)
qed

lemma self_edge_not_passed:
  assumes "Derivation d \<in> set (observing (h d))"
  shows "findCycle fuel h needle (Derivation d) \<noteq> Some False"
  using assms by (cases fuel) simp_all

text \<open>
  C8, as stated, fails: derivation 0 observed one plain observable; its body now
  reads its own output and then another plain observable.  The run ends with
  \<open>CycleDetected\<close> and has made no edge call: the plain observable that is in
  the new \<open>observing\<close> list and not in the previous one has not been added, and
  the one that is in the previous list and not in the new one has not been
  removed.
\<close>

theorem rebinding_stops_at_cycle:
  "map_option fst (trackDerivedFunction 1 0 selfThenAtomBody onceSubscribedWorld)
     = Some (Inl CycleDetected)
   \<and> edgeCalls (snd (the (trackDerivedFunction 1 0 selfThenAtomBody onceSubscribedWorld))) = []
   \<and> observers (snd (the (trackDerivedFunction 1 0 selfThenAtomBody onceSubscribedWorld))) (Atom 1) = []
   \<and> observers (snd (the (trackDerivedFunction 1 0 selfThenAtomBody onceSubscribedWorld))) (Atom 2) = [0]
   \<and> observing (heap (snd (the (trackDerivedFunction 1 0 selfThenAtomBody onceSubscribedWorld))) 0)
       = [Derivation 0, Atom 1]
   \<and> observing (heap onceSubscribedWorld 0) = [Atom 2]"
  by (simp add: trackDerivedFunction_def Let_def selfThenAtomBody_def readSource_def
      onceSubscribedWorld_def newWorld_def newDerivation_def bindDependencies_def quickDiff_def
      invariant_def)

text \<open>
  C8, amended: \<open>trackDerivedFunction\<close> hands the body a world in which the
  derivation's \<open>observing\<close> is empty and the derivation is on top of the stack.
  When the body returns with a non-empty stack, the stack is popped once and the
  sources of the new \<open>observing\<close> list that are not in the previous one are
  taken in order: each is cycle-checked first and installed only when its check
  returned false.  At the first source whose check finds a cycle the run fails
  with \<open>CycleDetected\<close>: that source and all later ones are not installed and
  nothing is removed.  Only when every addition has been made are the sources of
  the previous list that are not in the new one removed, and the body's value is
  returned.  The derivation itself is never installed by an addition, and the
  observers of a source in both lists are as before.  (\<open>pre\<close> are the added
  sources whose check returned false, \<open>rest\<close> starts with the first rejected
  one; a check that does not return is not covered.)
\<close>

theorem track_and_bind_protocol:
  assumes "w0 = w\<lparr>heap := (heap w)(d := (heap w d)\<lparr>observing := []\<rparr>),
                  derivationStack := derivationStack w @ [d]\<rparr>"
      and "f w0 = (result, w1)"
      and "prev = observing (heap w d)" and "new = observing (heap w1 d)"
      and "derivationStack w1 \<noteq> []"
      and "filter (\<lambda>x. x \<notin> set prev) new = pre @ rest"
      and "\<forall>x \<in> set pre. findCycle fuel (heap w1) d x = Some False"
      and "rest \<noteq> [] \<longrightarrow> findCycle fuel (heap w1) d (hd rest) = Some True"
  shows "\<exists>w'. trackDerivedFunction fuel d f w
         = Some (if rest = [] then Inr result else Inl CycleDetected, w')
     \<and> derivationStack w' = butlast (derivationStack w1)
     \<and> heap w' = heap w1
     \<and> edgeCalls w' = edgeCalls w1
          @ map (\<lambda>s. AddObserver s d) pre
          @ (if rest = [] then map (\<lambda>s. RemoveObserver s d) (filter (\<lambda>x. x \<notin> set new) prev)
             else [])
     \<and> Derivation d \<notin> set pre
     \<and> (\<forall>s. s \<in> set new \<and> s \<in> set prev \<longrightarrow> observers w' s = observers w1 s)"
proof -
  let ?removed = "filter (\<lambda>x. x \<notin> set new) prev"
  let ?p = "w1\<lparr>derivationStack := butlast (derivationStack w1)\<rparr>"
  let ?a = "addAll d ?p pre"
  let ?w' = "if rest = [] then bindDependencies_remove d ?removed ?a else ?a"
  from assms(7,8) have "bindDependencies_add fuel d (pre @ rest) ?p
      = Some (if rest = [] then Inr () else Inl CycleDetected, ?a)"
    by (intro add_split) simp_all
  with assms(3-6) have b: "bindDependencies fuel d prev w1
      = Some (if rest = [] then Inr () else Inl CycleDetected, ?w')"
    by (simp add: bindDependencies_def quickDiff_def)
  from assms(1,2,3) b have t: "trackDerivedFunction fuel d f w
      = Some (if rest = [] then Inr result else Inl CycleDetected, ?w')"
    by (simp add: trackDerivedFunction_def Let_def)
  have st: "derivationStack ?w' = butlast (derivationStack w1)"
    by (simp add: remove_fields addAll_fields)
  have hp: "heap ?w' = heap w1"
    by (simp add: remove_fields addAll_fields)
  have ec: "edgeCalls ?w' = edgeCalls w1 @ map (\<lambda>s. AddObserver s d) pre
          @ (if rest = [] then map (\<lambda>s. RemoveObserver s d) ?removed else [])"
    by (simp add: remove_fields addAll_fields)
  have self: "Derivation d \<notin> set pre"
  proof
    assume in_pre: "Derivation d \<in> set pre"
    with assms(6) have "Derivation d \<in> set (filter (\<lambda>x. x \<notin> set prev) new)"
      by simp
    with assms(4) have "Derivation d \<in> set (observing (heap w1 d))"
      by simp
    then have "findCycle fuel (heap w1) d (Derivation d) \<noteq> Some False"
      by (rule self_edge_not_passed)
    with in_pre assms(7) show False
      by simp
  qed
  have ob: "observers ?w' s = observers w1 s" if "s \<in> set new" "s \<in> set prev" for s
  proof -
    from that have "s \<notin> set (filter (\<lambda>x. x \<notin> set prev) new)"
      by simp
    with assms(6) have "s \<notin> set pre"
      by simp
    then have "count_list pre s = 0"
      by (simp add: count_list_0_iff)
    moreover from that have "s \<notin> set ?removed"
      by simp
    ultimately show ?thesis
      by (simp add: remove_fields addAll_fields)
  qed
  from t st hp ec self ob show ?thesis
    by blast
qed

theorem track_and_bind_protocol_witness:
  "(\<exists>w'. trackDerivedFunction 1 0 switchingBody subscribedWorld = Some (Inr 7, w')
      \<and> derivationStack w' = []
      \<and> edgeCalls w' = [AddObserver (Atom 3) 0, RemoveObserver (Atom 1) 0]
      \<and> observers w' (Atom 2) = [0])
   \<and> (\<exists>w'. trackDerivedFunction 1 0 atomThenSelfBody subscribedWorld = Some (Inl CycleDetected, w')
      \<and> derivationStack w' = []
      \<and> edgeCalls w' = [])"
proof -
  let ?w0 = "subscribedWorld\<lparr>heap := (heap subscribedWorld)
                 (0 := (heap subscribedWorld 0)\<lparr>observing := []\<rparr>),
               derivationStack := derivationStack subscribedWorld @ [0]\<rparr>"
  have prev: "observing (heap subscribedWorld 0) = [Atom 1, Atom 2]"
    by (simp add: subscribedWorld_def newWorld_def)
  have new: "observing (heap (snd (switchingBody ?w0)) 0) = [Atom 2, Atom 3]"
    by (simp add: switchingBody_def readSource_def subscribedWorld_def newWorld_def)
  have stack: "derivationStack (snd (switchingBody ?w0)) = [0]"
    by (simp add: switchingBody_def readSource_def subscribedWorld_def newWorld_def)
  have calls: "edgeCalls (snd (switchingBody ?w0)) = []"
    by (simp add: switchingBody_def readSource_def subscribedWorld_def newWorld_def)
  have obs: "observers (snd (switchingBody ?w0)) (Atom 2) = [0]"
    by (simp add: switchingBody_def readSource_def subscribedWorld_def newWorld_def)
  have res: "fst (switchingBody ?w0) = 7"
    by (simp add: switchingBody_def)
  have ne: "derivationStack (snd (switchingBody ?w0)) \<noteq> []"
    using stack by simp
  have split: "filter (\<lambda>x. x \<notin> set (observing (heap subscribedWorld 0)))
                 (observing (heap (snd (switchingBody ?w0)) 0)) = [Atom 3] @ []"
    by (simp add: new prev)
  have chk: "\<forall>x \<in> set [Atom 3]. findCycle 1 (heap (snd (switchingBody ?w0))) 0 x = Some False"
    by simp
  have none: "([]::IObservable list) \<noteq> []
      \<longrightarrow> findCycle 1 (heap (snd (switchingBody ?w0))) 0 (hd []) = Some True"
    by simp
  from track_and_bind_protocol [where w = subscribedWorld and d = 0 and f = switchingBody
      and fuel = 1, OF refl surjective_pairing refl refl ne split chk none]
  obtain u where
      r: "trackDerivedFunction 1 0 switchingBody subscribedWorld = Some (Inr 7, u)"
    and st: "derivationStack u = []"
    and ec: "edgeCalls u = [AddObserver (Atom 3) 0, RemoveObserver (Atom 1) 0]"
    and ob: "\<forall>s. s \<in> set [Atom 2, Atom 3] \<and> s \<in> set [Atom 1, Atom 2]
               \<longrightarrow> observers u s = observers (snd (switchingBody ?w0)) s"
    unfolding new prev stack calls res by auto
  from ob obs have "observers u (Atom 2) = [0]"
    by simp
  with r st ec have first: "\<exists>w'. trackDerivedFunction 1 0 switchingBody subscribedWorld = Some (Inr 7, w')
      \<and> derivationStack w' = []
      \<and> edgeCalls w' = [AddObserver (Atom 3) 0, RemoveObserver (Atom 1) 0]
      \<and> observers w' (Atom 2) = [0]"
    by blast
  have new2: "observing (heap (snd (atomThenSelfBody ?w0)) 0) = [Atom 1, Derivation 0]"
    by (simp add: atomThenSelfBody_def readSource_def subscribedWorld_def newWorld_def)
  have stack2: "derivationStack (snd (atomThenSelfBody ?w0)) = [0]"
    by (simp add: atomThenSelfBody_def readSource_def subscribedWorld_def newWorld_def)
  have calls2: "edgeCalls (snd (atomThenSelfBody ?w0)) = []"
    by (simp add: atomThenSelfBody_def readSource_def subscribedWorld_def newWorld_def)
  have ne2: "derivationStack (snd (atomThenSelfBody ?w0)) \<noteq> []"
    using stack2 by simp
  have split2: "filter (\<lambda>x. x \<notin> set (observing (heap subscribedWorld 0)))
                 (observing (heap (snd (atomThenSelfBody ?w0)) 0)) = [] @ [Derivation 0]"
    by (simp add: new2 prev)
  have chk2: "\<forall>x \<in> set []. findCycle 1 (heap (snd (atomThenSelfBody ?w0))) 0 x = Some False"
    by simp
  have rej: "[Derivation 0] \<noteq> []
      \<longrightarrow> findCycle 1 (heap (snd (atomThenSelfBody ?w0))) 0 (hd [Derivation 0]) = Some True"
    by (simp add: new2)
  from track_and_bind_protocol [where w = subscribedWorld and d = 0 and f = atomThenSelfBody
      and fuel = 1, OF refl surjective_pairing refl refl ne2 split2 chk2 rej]
  have "\<exists>w'. trackDerivedFunction 1 0 atomThenSelfBody subscribedWorld = Some (Inl CycleDetected, w')
      \<and> derivationStack w' = []
      \<and> edgeCalls w' = []"
    unfolding stack2 calls2 by auto
  with first show ?thesis
    by blast
qed

subsection \<open>A run that reads its own output\<close>




subsection \<open>The value of the body\<close>

text \<open>
  C9, as stated, fails: the body of derivation 0 reads its own output and
  produces 42, and \<open>trackDerivedFunction\<close> raises \<open>CycleDetected\<close> instead of
  returning it.
\<close>

theorem self_reading_body_raises:
  "map_option fst (trackDerivedFunction 1 0 selfReadingBody newWorld) = Some (Inl CycleDetected)
   \<and> fst (selfReadingBody (newWorld\<lparr>derivationStack := [0]\<rparr>)) = 42"
  by (simp add: trackDerivedFunction_def Let_def selfReadingBody_def readSource_def newWorld_def
      newDerivation_def bindDependencies_def quickDiff_def invariant_def)

text \<open>
  C9, amended: \<open>trackDerivedFunction\<close> returns a value exactly when the binding
  succeeds, that is when the stack is not empty as the body returns and the
  cycle check returns false for every added edge; the value it returns is then
  exactly the one the body produced, and it never returns any other value.
\<close>

theorem tracked_result_returned:
  assumes "w0 = w\<lparr>heap := (heap w)(d := (heap w d)\<lparr>observing := []\<rparr>),
                  derivationStack := derivationStack w @ [d]\<rparr>"
      and "f w0 = (result, w1)"
      and "prev = observing (heap w d)" and "new = observing (heap w1 d)"
  shows "(\<exists>w'. trackDerivedFunction fuel d f w = Some (Inr v, w'))
     = (v = result \<and> derivationStack w1 \<noteq> []
        \<and> (\<forall>x \<in> set (filter (\<lambda>x. x \<notin> set prev) new). findCycle fuel (heap w1) d x = Some False))"
proof -
  have "(\<exists>w'. trackDerivedFunction fuel d f w = Some (Inr v, w'))
      = (v = result \<and> (\<exists>w'. bindDependencies fuel d prev w1 = Some (Inr (), w')))"
    using assms(1,2,3)
    by (auto simp: trackDerivedFunction_def Let_def split: option.splits sum.splits prod.splits)
  then show ?thesis
    using assms(3,4) by (simp add: bindDependencies_succeeds_iff)
qed

theorem tracked_result_returned_witness:
  "(\<exists>w'. trackDerivedFunction 1 0 switchingBody newWorld = Some (Inr 7, w'))
   \<and> (\<nexists>w'. trackDerivedFunction 1 0 switchingBody newWorld = Some (Inr 8, w'))"
proof -
  let ?w0 = "newWorld\<lparr>heap := (heap newWorld)(0 := (heap newWorld 0)\<lparr>observing := []\<rparr>),
               derivationStack := derivationStack newWorld @ [0]\<rparr>"
  have new: "observing (heap (snd (switchingBody ?w0)) 0) = [Atom 2, Atom 3]"
    by (simp add: switchingBody_def readSource_def newWorld_def)
  have prev: "observing (heap newWorld 0) = []"
    by (simp add: newWorld_def newDerivation_def)
  have ne: "derivationStack (snd (switchingBody ?w0)) \<noteq> []"
    by (simp add: switchingBody_def readSource_def newWorld_def)
  have res: "fst (switchingBody ?w0) = 7"
    by (simp add: switchingBody_def)
  note t = tracked_result_returned [where w = newWorld and d = 0 and f = switchingBody
      and fuel = 1, OF refl surjective_pairing refl refl]
  from t [of 7] t [of 8] show ?thesis
    by (simp add: new prev ne res)
qed

subsection \<open>A second run of a body that reads its own output\<close>

text \<open>
  Only added edges are checked.  When every source of the new \<open>observing\<close> list
  was already in the previous one and the stack is not empty as the body
  returns, binding succeeds at every depth and makes no \<open>addObserver\<close> call,
  also when the derivation is in its own list.
\<close>

theorem kept_edges_not_checked:
  assumes "w0 = w\<lparr>heap := (heap w)(d := (heap w d)\<lparr>observing := []\<rparr>),
                  derivationStack := derivationStack w @ [d]\<rparr>"
      and "f w0 = (result, w1)"
      and "set (observing (heap w1 d)) \<subseteq> set (observing (heap w d))"
      and "derivationStack w1 \<noteq> []"
  shows "\<exists>w'. trackDerivedFunction fuel d f w = Some (Inr result, w')
     \<and> edgeCalls w' = edgeCalls w1
          @ map (\<lambda>s. RemoveObserver s d)
              (filter (\<lambda>x. x \<notin> set (observing (heap w1 d))) (observing (heap w d)))"
proof -
  from assms(3) have e: "filter (\<lambda>x. x \<notin> set (observing (heap w d))) (observing (heap w1 d)) = []"
    by (auto simp: filter_empty_conv)
  let ?w' = "bindDependencies_remove d
               (filter (\<lambda>x. x \<notin> set (observing (heap w1 d))) (observing (heap w d)))
               (w1\<lparr>derivationStack := butlast (derivationStack w1)\<rparr>)"
  from assms(4) e have "bindDependencies fuel d (observing (heap w d)) w1 = Some (Inr (), ?w')"
    by (simp add: bindDependencies_succeeds_iff)
  with assms(1,2) have "trackDerivedFunction fuel d f w = Some (Inr result, ?w')"
    by (simp add: trackDerivedFunction_def Let_def)
  moreover have "edgeCalls ?w' = edgeCalls w1
          @ map (\<lambda>s. RemoveObserver s d)
              (filter (\<lambda>x. x \<notin> set (observing (heap w1 d))) (observing (heap w d)))"
    by (simp add: remove_fields)
  ultimately show ?thesis by blast
qed

text \<open>
  The first run of the self-reading body of derivation 0 raises \<open>CycleDetected\<close>
  and leaves the derivation in its own \<open>observing\<close> list; a second run in the
  world the first one left returns the body's value.
\<close>

theorem kept_edges_not_checked_witness:
  "map_option fst (trackDerivedFunction 1 0 selfReadingBody newWorld) = Some (Inl CycleDetected)
   \<and> (\<exists>w'. trackDerivedFunction 1 0 selfReadingBody
              (snd (the (trackDerivedFunction 1 0 selfReadingBody newWorld)))
            = Some (Inr 42, w')
          \<and> edgeCalls w' = [])"
proof -
  let ?left = "snd (the (trackDerivedFunction 1 0 selfReadingBody newWorld))"
  let ?start = "?left\<lparr>heap := (heap ?left)(0 := (heap ?left 0)\<lparr>observing := []\<rparr>),
               derivationStack := derivationStack ?left @ [0]\<rparr>"
  have first: "trackDerivedFunction 1 0 selfReadingBody newWorld
      = Some (Inl CycleDetected,
              newWorld\<lparr>heap := (heap newWorld)(0 := newDerivation\<lparr>observing := [Derivation 0]\<rparr>)\<rparr>)"
    by (simp add: trackDerivedFunction_def Let_def selfReadingBody_def readSource_def newWorld_def
        newDerivation_def bindDependencies_def quickDiff_def invariant_def)
  then have w: "?left = newWorld\<lparr>heap := (heap newWorld)(0 := newDerivation\<lparr>observing := [Derivation 0]\<rparr>)\<rparr>"
    by simp
  have sub: "set (observing (heap (snd (selfReadingBody ?start)) 0)) \<subseteq> set (observing (heap ?left 0))"
    unfolding w by (simp add: selfReadingBody_def readSource_def newWorld_def)
  have ne: "derivationStack (snd (selfReadingBody ?start)) \<noteq> []"
    unfolding w by (simp add: selfReadingBody_def readSource_def newWorld_def)
  have res: "fst (selfReadingBody ?start) = 42"
    by (simp add: selfReadingBody_def)
  have calls: "edgeCalls (snd (selfReadingBody ?start)) = []"
    unfolding w by (simp add: selfReadingBody_def readSource_def newWorld_def)
  have kept: "filter (\<lambda>x. x \<notin> set (observing (heap (snd (selfReadingBody ?start)) 0)))
                (observing (heap ?left 0)) = []"
    unfolding w by (simp add: selfReadingBody_def readSource_def newWorld_def)
  from kept_edges_not_checked [where w = ?left and d = 0 and f = selfReadingBody and fuel = 1,
      OF refl surjective_pairing sub ne]
  obtain w' where "trackDerivedFunction 1 0 selfReadingBody ?left = Some (Inr 42, w')"
      and "edgeCalls w' = []"
    unfolding res calls kept by auto
  with first show ?thesis
    by auto
qed

end
